theory Spec2Isabelle
  imports Main "HOL-Library.Multiset"
begin

section \<open>Text and pattern matching\<close>

text \<open>
  The log scanner of \<^verbatim>\<open>scanLogs.py\<close> works on Python \<^verbatim>\<open>str\<close> values. A line of text is
  modelled as a \<^typ>\<open>string\<close>, one \<^typ>\<open>char\<close> per code point below 256. Numbers read from
  the log are Python's unbounded integers, modelled as \<^typ>\<open>int\<close>.
\<close>

subsection \<open>Character classes of the \<^verbatim>\<open>re\<close> module\<close>

text \<open>
  \<^verbatim>\<open>\d\<close> matches a decimal digit and \<^verbatim>\<open>\s\<close> a whitespace character. Below code point
  256 the whitespace characters of a Python \<^verbatim>\<open>str\<close> are 0x09 to 0x0D, 0x1C to 0x20, 0x85
  and 0xA0; the same set is removed by \<^verbatim>\<open>str.strip()\<close>.
\<close>

definition is_digit :: "char \<Rightarrow> bool" where
  "is_digit c = (c \<in> set ''0123456789'')"

definition is_space :: "char \<Rightarrow> bool" where
  "is_space c = (c \<in> set [CHR 0x09, CHR 0x0A, CHR 0x0B, CHR 0x0C, CHR 0x0D,
                           CHR 0x1C, CHR 0x1D, CHR 0x1E, CHR 0x1F, CHR 0x20,
                           CHR 0x85, CHR 0xA0])"

datatype cclass =
    Digit                \<comment> \<open>\<^verbatim>\<open>\d\<close>\<close>
  | Space                \<comment> \<open>\<^verbatim>\<open>\s\<close>\<close>
  | Ch char              \<comment> \<open>a literal character\<close>
  | AnyOf "cclass list"  \<comment> \<open>\<^verbatim>\<open>[...]\<close>\<close>
  | NoneOf "cclass list" \<comment> \<open>\<^verbatim>\<open>[^...]\<close>\<close>

fun in_class :: "cclass \<Rightarrow> char \<Rightarrow> bool" where
  "in_class Digit c = is_digit c"
| "in_class Space c = is_space c"
| "in_class (Ch d) c = (c = d)"
| "in_class (AnyOf cs) c = list_ex (\<lambda>k. in_class k c) cs"
| "in_class (NoneOf cs) c = (\<not> list_ex (\<lambda>k. in_class k c) cs)"

subsection \<open>A backtracking matcher\<close>

text \<open>
  Every pattern of the scanner is a sequence of single-character classes, each with a
  greedy quantifier, around one capture group. A quantified class, tried at a position,
  can stop at several places; the matcher lists the rests of the text after each of them,
  in the order in which a backtracking engine tries them (the longest repetition first).
\<close>

datatype quant =
    One           \<comment> \<open>exactly once\<close>
  | Times nat     \<comment> \<open>\<^verbatim>\<open>{n}\<close>\<close>
  | Plus          \<comment> \<open>\<^verbatim>\<open>+\<close>\<close>
  | Star          \<comment> \<open>\<^verbatim>\<open>*\<close>\<close>
  | Opt           \<comment> \<open>\<^verbatim>\<open>?\<close>\<close>

type_synonym item = "cclass \<times> quant"

fun run_length :: "cclass \<Rightarrow> string \<Rightarrow> nat" where
  "run_length k [] = 0"
| "run_length k (c # cs) = (if in_class k c then Suc (run_length k cs) else 0)"

fun rests_from :: "nat \<Rightarrow> nat \<Rightarrow> string \<Rightarrow> string list" where
  "rests_from lo 0 s = (if lo = 0 then [s] else [])"
| "rests_from lo (Suc n) s = (if lo \<le> Suc n then drop (Suc n) s # rests_from lo n s else [])"

fun match_item :: "item \<Rightarrow> string \<Rightarrow> string list" where
  "match_item (k, One) s = (if 1 \<le> run_length k s then [drop 1 s] else [])"
| "match_item (k, Times n) s = (if n \<le> run_length k s then [drop n s] else [])"
| "match_item (k, Plus) s = rests_from 1 (run_length k s) s"
| "match_item (k, Star) s = rests_from 0 (run_length k s) s"
| "match_item (k, Opt) s = rests_from 0 (min 1 (run_length k s)) s"

fun match_seq :: "item list \<Rightarrow> string \<Rightarrow> string list" where
  "match_seq [] s = [s]"
| "match_seq (i # is) s = concat (map (match_seq is) (match_item i s))"

definition lit :: "string \<Rightarrow> item list" where
  "lit w = map (\<lambda>c. (Ch c, One)) w"

text \<open>
  A pattern is the part before the group, the group and the part after it.
  \<open>match_here\<close> gives the text of group 1 for the first way, in backtracking order, to
  match the pattern at the start of the text; \<open>re_search\<close> is
  \<^verbatim>\<open>m = re.search(p, s)\<close> followed by \<^verbatim>\<open>m.group(1)\<close>: it tries every start position
  from left to right, the end of the text included.
\<close>

type_synonym pattern = "item list \<times> item list \<times> item list"

definition group_at :: "item list \<Rightarrow> item list \<Rightarrow> string \<Rightarrow> string list" where
  "group_at grp post r =
     concat (map (\<lambda>r'. map (\<lambda>_. take (length r - length r') r) (match_seq post r'))
                 (match_seq grp r))"

definition match_here :: "pattern \<Rightarrow> string \<Rightarrow> string option" where
  "match_here p s =
     (case p of (pre, grp, post) \<Rightarrow>
        (case concat (map (group_at grp post) (match_seq pre s)) of
           [] \<Rightarrow> None
         | g # _ \<Rightarrow> Some g))"

fun re_search :: "pattern \<Rightarrow> string \<Rightarrow> string option" where
  "re_search p [] = match_here p []"
| "re_search p (c # cs) =
     (case match_here p (c # cs) of
        Some g \<Rightarrow> Some g
      | None \<Rightarrow> re_search p cs)"

subsection \<open>Helpers of the standard library\<close>

fun starts_with :: "string \<Rightarrow> string \<Rightarrow> bool" where
  "starts_with [] s = True"
| "starts_with (w # ws) [] = False"
| "starts_with (w # ws) (c # cs) = (w = c \<and> starts_with ws cs)"

text \<open>\<^verbatim>\<open>w in s\<close> on strings: \<open>w\<close> occurs in \<open>s\<close> as a contiguous piece.\<close>

fun contains :: "string \<Rightarrow> string \<Rightarrow> bool" where
  "contains w [] = starts_with w []"
| "contains w (c # cs) = (starts_with w (c # cs) \<or> contains w cs)"

text \<open>\<^verbatim>\<open>s.strip()\<close>: whitespace removed at both ends.\<close>

definition strip :: "string \<Rightarrow> string" where
  "strip s = rev (dropWhile is_space (rev (dropWhile is_space s)))"

text \<open>
  \<^verbatim>\<open>int(s)\<close> on a text of decimal digits. The interpreter's configurable limit on the
  number of digits that \<^verbatim>\<open>int\<close> converts is not part of the model.
\<close>

definition digit_value :: "char \<Rightarrow> int" where
  "digit_value c = int (length (takeWhile (\<lambda>d. d \<noteq> c) ''0123456789''))"

definition int_of_digits :: "string \<Rightarrow> int" where
  "int_of_digits s = foldl (\<lambda>a c. 10 * a + digit_value c) 0 s"

section \<open>The field extractor\<close>

text \<open>
  The record of one marker line: the dictionary that \<^verbatim>\<open>parse_collscan_line\<close> builds,
  with a fixed set of keys. \<open>None\<close> is Python's \<^verbatim>\<open>None\<close>.
\<close>

record scan_record =
  line_number :: int
  timestamp :: "string option"
  collection :: "string option"
  query :: "string option"
  duration_ms :: "int option"
  docs_examined :: "int option"
  keys_examined :: "int option"
  plan_summary :: "string option"
  raw_line :: string

text \<open>The eight patterns, in the order of the source.\<close>

definition timestamp_re :: pattern where
  \<comment> \<open>\<^verbatim>\<open>(\d{4}-\d{2}-\d{2}T\d{2}:\d{2}:\d{2}\.\d+[+-]\d{4})\<close>\<close>
  "timestamp_re =
     ([],
      [(Digit, Times 4), (Ch CHR ''-'', One), (Digit, Times 2), (Ch CHR ''-'', One),
       (Digit, Times 2), (Ch CHR ''T'', One), (Digit, Times 2), (Ch CHR '':'', One),
       (Digit, Times 2), (Ch CHR '':'', One), (Digit, Times 2), (Ch CHR ''.'', One),
       (Digit, Plus), (AnyOf [Ch CHR ''+'', Ch CHR ''-''], One), (Digit, Times 4)],
      [])"

definition ns_re :: pattern where
  \<comment> \<open>\<^verbatim>\<open>ns:\s*([^\s]+\.[^\s]+)\<close>\<close>
  "ns_re =
     (lit ''ns:'' @ [(Space, Star)],
      [(NoneOf [Space], Plus), (Ch CHR ''.'', One), (NoneOf [Space], Plus)],
      [])"

definition collection_re :: pattern where
  \<comment> \<open>\<^verbatim>\<open>collection:\s*"?([^"\s]+)"?\<close>\<close>
  "collection_re =
     (lit ''collection:'' @ [(Space, Star), (Ch CHR 0x22, Opt)],
      [(NoneOf [Ch CHR 0x22, Space], Plus)],
      [(Ch CHR 0x22, Opt)])"

definition query_re :: pattern where
  \<comment> \<open>\<^verbatim>\<open>query:\s*({[^}]+})\<close>\<close>
  "query_re =
     (lit ''query:'' @ [(Space, Star)],
      [(Ch CHR ''{'', One), (NoneOf [Ch CHR ''}''], Plus), (Ch CHR ''}'', One)],
      [])"

definition duration_re :: pattern where
  \<comment> \<open>\<^verbatim>\<open>(\d+)ms\<close>\<close>
  "duration_re = ([], [(Digit, Plus)], lit ''ms'')"

definition docs_re :: pattern where
  \<comment> \<open>\<^verbatim>\<open>docsExamined:\s*(\d+)\<close>\<close>
  "docs_re = (lit ''docsExamined:'' @ [(Space, Star)], [(Digit, Plus)], [])"

definition keys_re :: pattern where
  \<comment> \<open>\<^verbatim>\<open>keysExamined:\s*(\d+)\<close>\<close>
  "keys_re = (lit ''keysExamined:'' @ [(Space, Star)], [(Digit, Plus)], [])"

definition plan_re :: pattern where
  \<comment> \<open>\<^verbatim>\<open>planSummary:\s*([^\s]+)\<close>\<close>
  "plan_re = (lit ''planSummary:'' @ [(Space, Star)], [(NoneOf [Space], Plus)], [])"

text \<open>
  Python's truth test on an optional text: \<^verbatim>\<open>None\<close> and the empty text are false.
\<close>

fun truthy_str :: "string option \<Rightarrow> bool" where
  "truthy_str None = False"
| "truthy_str (Some s) = (s \<noteq> [])"

text \<open>
  \<^verbatim>\<open>parse_collscan_line\<close>: the dictionary is created with every optional key at
  \<^verbatim>\<open>None\<close>, then each pattern that matches stores its group. The \<^verbatim>\<open>collection:\<close>
  pattern is tried only while the namespace is still false.
\<close>

definition parse_collscan_line :: "string \<Rightarrow> int \<Rightarrow> scan_record" where
  "parse_collscan_line line n =
    (let q0 = \<lparr> line_number = n, timestamp = None, collection = None, query = None,
                duration_ms = None, docs_examined = None, keys_examined = None,
                plan_summary = None, raw_line = strip line \<rparr>;
         q1 = (case re_search timestamp_re line of
                 Some g \<Rightarrow> q0\<lparr>timestamp := Some g\<rparr> | None \<Rightarrow> q0);
         q2 = (case re_search ns_re line of
                 Some g \<Rightarrow> q1\<lparr>collection := Some g\<rparr> | None \<Rightarrow> q1);
         q3 = (if \<not> truthy_str (collection q2)
               then (case re_search collection_re line of
                       Some g \<Rightarrow> q2\<lparr>collection := Some g\<rparr> | None \<Rightarrow> q2)
               else q2);
         q4 = (case re_search query_re line of
                 Some g \<Rightarrow> q3\<lparr>query := Some g\<rparr> | None \<Rightarrow> q3);
         q5 = (case re_search duration_re line of
                 Some g \<Rightarrow> q4\<lparr>duration_ms := Some (int_of_digits g)\<rparr> | None \<Rightarrow> q4);
         q6 = (case re_search docs_re line of
                 Some g \<Rightarrow> q5\<lparr>docs_examined := Some (int_of_digits g)\<rparr> | None \<Rightarrow> q5);
         q7 = (case re_search keys_re line of
                 Some g \<Rightarrow> q6\<lparr>keys_examined := Some (int_of_digits g)\<rparr> | None \<Rightarrow> q6);
         q8 = (case re_search plan_re line of
                 Some g \<Rightarrow> q7\<lparr>plan_summary := Some g\<rparr> | None \<Rightarrow> q7)
     in q8)"

section \<open>The line scanner\<close>

text \<open>
  What the script writes to the console: one entry per call of \<^verbatim>\<open>print\<close>, holding the
  text passed to it. The average is the one place where the script computes with binary
  floating point; \<open>Print_average t n\<close> stands for
  \<^verbatim>\<open>print(f"Average duration: {t / n:.2f}ms")\<close>, the quotient of the two integers
  rendered by the format \<^verbatim>\<open>.2f\<close> (two digits after the decimal point), and keeps the two
  integers instead of the rendered digits. A call of \<^verbatim>\<open>print\<close> is taken to succeed.
\<close>

datatype console = Print string | Print_average int int

definition rule70 :: string where
  \<comment> \<open>\<^verbatim>\<open>'=' * 70\<close>\<close>
  "rule70 = replicate 70 CHR ''=''"

text \<open>
  The marks U+2713 and U+2717 that start some messages lie outside the characters of the
  model; they appear as their three UTF-8 bytes.
\<close>

definition check_mark :: string where
  "check_mark = [CHR 0xE2, CHR 0x9C, CHR 0x93]"

definition cross_mark :: string where
  "cross_mark = [CHR 0xE2, CHR 0x9C, CHR 0x97]"

text \<open>\<^verbatim>\<open>str(i)\<close> on an integer.\<close>

fun str_nat :: "nat \<Rightarrow> string" where
  "str_nat n =
     (if n < 10 then [''0123456789'' ! n]
      else str_nat (n div 10) @ [''0123456789'' ! (n mod 10)])"

declare str_nat.simps [simp del]

definition str_int :: "int \<Rightarrow> string" where
  "str_int i = (if i < 0 then CHR ''-'' # str_nat (nat (- i)) else str_nat (nat i))"

text \<open>
  Exceptions are values; each carries its message, the text of \<^verbatim>\<open>str(e)\<close>. Every
  exception of the model is an \<^verbatim>\<open>Exception\<close>; the handlers of the script tell
  \<^verbatim>\<open>FileNotFoundError\<close> from the others.
\<close>

datatype exn = FileNotFoundError string | OtherException string


text \<open>
  The state of the log file when the scanner opens it: \<^verbatim>\<open>open\<close> raises, or the file
  yields some lines and then either ends or raises while it is read.
\<close>

datatype input_file =
    Open_fails exn
  | Readable "string list" "exn option"

text \<open>
  The loop of \<^verbatim>\<open>parse_mongo_log\<close> over the lines: \<open>n\<close> is \<^verbatim>\<open>line_number\<close> and
  \<open>acc\<close> is \<^verbatim>\<open>collscan_queries\<close>. The dictionary returned by
  \<^verbatim>\<open>parse_collscan_line\<close> has nine keys, so the test \<^verbatim>\<open>if query_info:\<close> holds and the
  record is appended.
\<close>

fun scan_lines :: "string list \<Rightarrow> int \<Rightarrow> scan_record list \<Rightarrow> scan_record list" where
  "scan_lines [] n acc = acc"
| "scan_lines (line # rest) n acc =
     (let n' = n + 1
      in if contains ''COLLSCAN'' line
         then scan_lines rest n' (acc @ [parse_collscan_line line n'])
         else scan_lines rest n' acc)"

text \<open>The body of the \<^verbatim>\<open>try\<close> block: it returns the records or raises.\<close>

fun scan_file :: "input_file \<Rightarrow> exn + scan_record list" where
  "scan_file (Open_fails e) = Inl e"
| "scan_file (Readable ls None) = Inr (scan_lines ls 0 [])"
| "scan_file (Readable ls (Some e)) = Inl e"

text \<open>
  \<^verbatim>\<open>parse_mongo_log\<close>: what it prints, and what it returns to its caller (\<open>Inr\<close>) or
  raises (\<open>Inl\<close>).
\<close>

definition parse_mongo_log :: "input_file \<Rightarrow> string \<Rightarrow> console list \<times> (exn + scan_record list)" where
  "parse_mongo_log file log_file_path =
     (let out = [Print rule70,
                 Print (''Analyzing MongoDB Log: '' @ log_file_path),
                 Print rule70]
      in case scan_file file of
           Inr qs \<Rightarrow> (out, Inr qs)
         | Inl (FileNotFoundError msg) \<Rightarrow>
             (out @ [Print (cross_mark @ '' Error: File not found - '' @ log_file_path)],
              Inr [])
         | Inl (OtherException msg) \<Rightarrow>
             (out @ [Print (cross_mark @ '' Error reading file: '' @ msg)], Inr []))"

section \<open>The summary\<close>

text \<open>
  \<^verbatim>\<open>by_collection\<close> is a \<^verbatim>\<open>defaultdict(int)\<close>; a dictionary keeps its keys in the order
  of their first insertion, so it is an association list with a new key added at the end.
\<close>

type_synonym counts = "(string \<times> int) list"

fun bump :: "string \<Rightarrow> counts \<Rightarrow> counts" where
  "bump k [] = [(k, 1)]"
| "bump k ((k', c) # rest) = (if k = k' then (k', c + 1) # rest else (k', c) # bump k rest)"

text \<open>
  The loop of \<^verbatim>\<open>print_summary\<close>, with its three variables \<^verbatim>\<open>by_collection\<close>,
  \<^verbatim>\<open>total_duration\<close> and \<^verbatim>\<open>slow_queries\<close>. The tests \<^verbatim>\<open>if query['collection']:\<close>
  and \<^verbatim>\<open>if query['duration_ms']:\<close> are truth tests: the empty text and the number 0
  are false, as \<^verbatim>\<open>None\<close> is.
\<close>

fun summary_loop ::
  "scan_record list \<Rightarrow> counts \<times> int \<times> scan_record list \<Rightarrow> counts \<times> int \<times> scan_record list" where
  "summary_loop [] st = st"
| "summary_loop (q # qs) (by_collection, total_duration, slow_queries) =
     (let by_collection' =
            (case collection q of
               Some c \<Rightarrow> if c \<noteq> [] then bump c by_collection else by_collection
             | None \<Rightarrow> by_collection)
      in case duration_ms q of
           Some d \<Rightarrow>
             if d \<noteq> 0
             then summary_loop qs
                    (by_collection', total_duration + d,
                     (if d > 100 then slow_queries @ [q] else slow_queries))
             else summary_loop qs (by_collection', total_duration, slow_queries)
         | None \<Rightarrow> summary_loop qs (by_collection', total_duration, slow_queries))"

text \<open>
  \<^verbatim>\<open>sorted(items, key=lambda x: x[1], reverse=True)\<close>: the sort is stable, and with
  \<^verbatim>\<open>reverse=True\<close> the list is reversed, sorted in ascending order and reversed again.
\<close>

definition sorted_by_count_desc :: "counts \<Rightarrow> counts" where
  "sorted_by_count_desc items = rev (sort_key snd (rev items))"

definition print_summary :: "scan_record list \<Rightarrow> console list" where
  "print_summary collscan_queries =
     (if collscan_queries = [] then [Print (CHR 0x0A # check_mark @ '' No COLLSCAN queries found!'')]
      else
        (case summary_loop collscan_queries ([], 0, []) of
           (by_collection, total_duration, slow_queries) \<Rightarrow>
             [Print (CHR 0x0A # rule70), Print ''SUMMARY'', Print rule70,
              Print (CHR 0x0A # ''Total COLLSCAN queries found: ''
                       @ str_int (int (length collscan_queries)))]
             @ (if by_collection \<noteq> []
                then Print (CHR 0x0A # ''COLLSCAN queries by collection:'')
                     # map (\<lambda>(c, k). Print (''  '' @ c @ '': '' @ str_int k))
                           (sorted_by_count_desc by_collection)
                else [])
             @ (if slow_queries \<noteq> []
                then [Print (CHR 0x0A # ''Slow COLLSCAN queries (>100ms): ''
                               @ str_int (int (length slow_queries))),
                      Print_average total_duration (int (length collscan_queries))]
                else [])))"

section \<open>The detail view\<close>





section \<open>The export\<close>









section \<open>The program\<close>








section \<open>Notions used to state the properties\<close>

text \<open>
  The rows of the per-collection table: the items of \<^verbatim>\<open>by_collection\<close> in the order in
  which \<^verbatim>\<open>print_summary\<close> prints them.
\<close>

definition summary_rows :: "scan_record list \<Rightarrow> counts" where
  "summary_rows qs = sorted_by_count_desc (fst (summary_loop qs ([], 0, [])))"

text \<open>
  A record is slow when the loop of \<^verbatim>\<open>print_summary\<close> appends it to
  \<^verbatim>\<open>slow_queries\<close>: its duration is known and above 100.
\<close>

definition is_slow :: "scan_record \<Rightarrow> bool" where
  "is_slow q = (case duration_ms q of Some d \<Rightarrow> d > 100 | None \<Rightarrow> False)"

text \<open>
  The position in the record sequence at which a namespace is first met (the length of
  the sequence when it never is), and the number of records with a given namespace.
\<close>

definition first_seen :: "scan_record list \<Rightarrow> string \<Rightarrow> nat" where
  "first_seen qs c = length (takeWhile (\<lambda>q. collection q \<noteq> Some c) qs)"

definition ns_count :: "scan_record list \<Rightarrow> string \<Rightarrow> int" where
  "ns_count qs c = int (length (filter (\<lambda>q. collection q = Some c) qs))"

text \<open>
  One round of the loop of \<^verbatim>\<open>print_summary\<close> on \<^verbatim>\<open>by_collection\<close> alone, and the
  invariant of the loop: the keys are distinct, each key holds the number of records seen
  with that namespace, and the keys stand in the order in which they were first met.
\<close>

definition tally_step :: "counts \<Rightarrow> scan_record \<Rightarrow> counts" where
  "tally_step bc q =
     (case collection q of Some c \<Rightarrow> if c \<noteq> [] then bump c bc else bc | None \<Rightarrow> bc)"

definition tally_inv :: "scan_record list \<Rightarrow> counts \<Rightarrow> bool" where
  "tally_inv qs bc \<longleftrightarrow>
     distinct (map fst bc) \<and>
     (\<forall>c. map_of bc c =
        (if c \<noteq> [] \<and> (\<exists>q\<in>set qs. collection q = Some c) then Some (ns_count qs c) else None)) \<and>
     sorted_wrt (\<lambda>a b. first_seen qs a < first_seen qs b) (map fst bc)"

text \<open>
  A small log, used to run the definitions: six marker lines, two namespaces with two
  records each, one record without a namespace and two without a duration.
\<close>

definition sample_log :: "string list" where
  "sample_log =
     [''COLLSCAN ns: shop.b 150ms'', ''startup'', ''COLLSCAN ns: shop.a'', ''COLLSCAN'',
      ''COLLSCAN ns: shop.a 50ms'', ''COLLSCAN ns: shop.b 0ms'', ''COLLSCAN ns: shop.c 7ms'']"

definition sample_records :: "scan_record list" where
  "sample_records = scan_lines sample_log 0 []"


section \<open>Properties\<close>

subsection \<open>One literal line\<close>

text \<open>
  Claim C1. For the line
  \<^verbatim>\<open>2024-12-10T10:30:45.123+0000 COLLSCAN ns: mydb.orders query: {status:"pending"} 150ms docsExamined: 5000 keysExamined: 0 planSummary: COLLSCAN\<close>
  and any line number, the field extractor returns the record with timestamp
  \<^verbatim>\<open>2024-12-10T10:30:45.123+0000\<close>, namespace \<^verbatim>\<open>mydb.orders\<close>, duration 150, 5000
  documents examined, 0 keys examined and plan summary \<^verbatim>\<open>COLLSCAN\<close>; its query
  expression is \<^verbatim>\<open>{status:"pending"}\<close> and its raw text is the line itself.
\<close>

theorem C1_literal_line_fields:
  "parse_collscan_line
     ''2024-12-10T10:30:45.123+0000 COLLSCAN ns: mydb.orders query: {status:\"pending\"} 150ms docsExamined: 5000 keysExamined: 0 planSummary: COLLSCAN''
     n
   = \<lparr> line_number = n,
       timestamp = Some ''2024-12-10T10:30:45.123+0000'',
       collection = Some ''mydb.orders'',
       query = Some ''{status:\"pending\"}'',
       duration_ms = Some 150,
       docs_examined = Some 5000,
       keys_examined = Some 0,
       plan_summary = Some ''COLLSCAN'',
       raw_line = ''2024-12-10T10:30:45.123+0000 COLLSCAN ns: mydb.orders query: {status:\"pending\"} 150ms docsExamined: 5000 keysExamined: 0 planSummary: COLLSCAN'' \<rparr>"
  by code_simp

subsection \<open>The records of a scan\<close>



subsection \<open>The text of a group\<close>

lemma run_length_le: "run_length k s \<le> length s"
  by (induction s) auto

lemma rests_from_mem:
  "r \<in> set (rests_from lo n s) \<Longrightarrow> \<exists>i. lo \<le> i \<and> i \<le> n \<and> r = drop i s"
proof (induction n)
  case 0
  then show ?case by (auto split: if_splits)
next
  case (Suc n)
  show ?case
  proof (cases "r = drop (Suc n) s")
    case True
    with Suc.prems show ?thesis by (auto split: if_splits)
  next
    case False
    with Suc.prems have "r \<in> set (rests_from lo n s)"
      by (auto split: if_splits)
    from Suc.IH [OF this] show ?thesis
      using le_SucI by blast
  qed
qed

lemma match_item_length: "r \<in> set (match_item it s) \<Longrightarrow> length r \<le> length s"
  by (cases it; cases "snd it") (auto split: if_splits dest!: rests_from_mem)

lemma match_seq_length: "r \<in> set (match_seq its s) \<Longrightarrow> length r \<le> length s"
proof (induction its arbitrary: s)
  case Nil
  then show ?case by simp
next
  case (Cons it its)
  then obtain m where "m \<in> set (match_item it s)" "r \<in> set (match_seq its m)"
    by auto
  then show ?case
    using Cons.IH [of m] match_item_length [of m it s] by simp
qed

lemma match_plus_shorter:
  assumes "r \<in> set (match_seq ((k, Plus) # its) s)"
  shows "length r < length s"
proof -
  from assms obtain m where m: "m \<in> set (rests_from 1 (run_length k s) s)"
    and r: "r \<in> set (match_seq its m)"
    by auto
  from m obtain i where "1 \<le> i" "i \<le> run_length k s" "m = drop i s"
    using rests_from_mem by blast
  then have "length m < length s"
    using run_length_le [of k s] by simp
  then show ?thesis
    using match_seq_length [OF r] by simp
qed

lemma group_at_plus_nonempty:
  assumes "g \<in> set (group_at ((k, Plus) # its) post r)"
  shows "g \<noteq> []"
proof -
  from assms obtain r' where r': "r' \<in> set (match_seq ((k, Plus) # its) r)"
    and g: "g = take (length r - length r') r"
    by (auto simp: group_at_def)
  from match_plus_shorter [OF r'] have "0 < length r - length r'" "r \<noteq> []"
    by auto
  then show ?thesis
    by (simp add: g)
qed

lemma match_here_plus_nonempty:
  "match_here (pre, (k, Plus) # its, post) s = Some g \<Longrightarrow> g \<noteq> []"
proof -
  assume "match_here (pre, (k, Plus) # its, post) s = Some g"
  then obtain rest where
    "concat (map (group_at ((k, Plus) # its) post) (match_seq pre s)) = g # rest"
    by (auto simp: match_here_def split: list.splits)
  then have "g \<in> set (concat (map (group_at ((k, Plus) # its) post) (match_seq pre s)))"
    by (metis list.set_intros(1))
  then obtain r where "g \<in> set (group_at ((k, Plus) # its) post r)"
    by auto
  then show ?thesis
    by (rule group_at_plus_nonempty)
qed

lemma re_search_plus_nonempty:
  "re_search (pre, (k, Plus) # its, post) s = Some g \<Longrightarrow> g \<noteq> []"
  by (induction s) (auto split: option.splits dest: match_here_plus_nonempty)

lemma ns_nonempty: "re_search ns_re s = Some g \<Longrightarrow> g \<noteq> []"
  unfolding ns_re_def by (rule re_search_plus_nonempty)

lemma parse_collscan_line_fields:
  "parse_collscan_line line n =
     \<lparr> line_number = n,
       timestamp = re_search timestamp_re line,
       collection = (case re_search ns_re line of
                       Some g \<Rightarrow> Some g
                     | None \<Rightarrow> re_search collection_re line),
       query = re_search query_re line,
       duration_ms = map_option int_of_digits (re_search duration_re line),
       docs_examined = map_option int_of_digits (re_search docs_re line),
       keys_examined = map_option int_of_digits (re_search keys_re line),
       plan_summary = re_search plan_re line,
       raw_line = strip line \<rparr>"
proof -
  have ts: "\<And>x (q::scan_record). timestamp q = None \<Longrightarrow>
      (case x of Some g \<Rightarrow> q\<lparr>timestamp := Some g\<rparr> | None \<Rightarrow> q) = q\<lparr>timestamp := x\<rparr>"
    by (simp split: option.splits)
  have co: "\<And>x (q::scan_record). collection q = None \<Longrightarrow>
      (case x of Some g \<Rightarrow> q\<lparr>collection := Some g\<rparr> | None \<Rightarrow> q) = q\<lparr>collection := x\<rparr>"
    by (simp split: option.splits)
  have qu: "\<And>x (q::scan_record). query q = None \<Longrightarrow>
      (case x of Some g \<Rightarrow> q\<lparr>query := Some g\<rparr> | None \<Rightarrow> q) = q\<lparr>query := x\<rparr>"
    by (simp split: option.splits)
  have du: "\<And>x (q::scan_record). duration_ms q = None \<Longrightarrow>
      (case x of Some g \<Rightarrow> q\<lparr>duration_ms := Some (int_of_digits g)\<rparr> | None \<Rightarrow> q)
        = q\<lparr>duration_ms := map_option int_of_digits x\<rparr>"
    by (simp split: option.splits)
  have dc: "\<And>x (q::scan_record). docs_examined q = None \<Longrightarrow>
      (case x of Some g \<Rightarrow> q\<lparr>docs_examined := Some (int_of_digits g)\<rparr> | None \<Rightarrow> q)
        = q\<lparr>docs_examined := map_option int_of_digits x\<rparr>"
    by (simp split: option.splits)
  have ke: "\<And>x (q::scan_record). keys_examined q = None \<Longrightarrow>
      (case x of Some g \<Rightarrow> q\<lparr>keys_examined := Some (int_of_digits g)\<rparr> | None \<Rightarrow> q)
        = q\<lparr>keys_examined := map_option int_of_digits x\<rparr>"
    by (simp split: option.splits)
  have pl: "\<And>x (q::scan_record). plan_summary q = None \<Longrightarrow>
      (case x of Some g \<Rightarrow> q\<lparr>plan_summary := Some g\<rparr> | None \<Rightarrow> q) = q\<lparr>plan_summary := x\<rparr>"
    by (simp split: option.splits)
  show ?thesis
  proof (cases "re_search ns_re line")
    case None
    then show ?thesis
      by (simp add: parse_collscan_line_def Let_def ts co qu du dc ke pl)
  next
    case (Some g)
    with ns_nonempty have "g \<noteq> []" by blast
    with Some show ?thesis
      by (simp add: parse_collscan_line_def Let_def ts co qu du dc ke pl)
  qed
qed



lemma raw_line_parse: "raw_line (parse_collscan_line l n) = strip l"
  by (simp add: parse_collscan_line_fields)




subsection \<open>The loop of the summary\<close>

lemma summary_loop_eq:
  "summary_loop qs (bc, t, s) =
     (foldl tally_step bc qs, t + sum_list (List.map_filter duration_ms qs), s @ filter is_slow qs)"
proof (induction qs arbitrary: bc t s)
  case Nil
  then show ?case by (simp add: map_filter_simps)
next
  case (Cons q qs)
  show ?case
    by (cases "duration_ms q")
       (simp_all add: Cons.IH Let_def tally_step_def is_slow_def map_filter_simps)
qed

lemma map_of_bump:
  "map_of (bump k bc) = (map_of bc)(k \<mapsto> (case map_of bc k of None \<Rightarrow> 1 | Some c \<Rightarrow> c + 1))"
  by (induction bc) (auto simp: fun_eq_iff)

lemma map_fst_bump:
  "map fst (bump k bc) = (if k \<in> set (map fst bc) then map fst bc else map fst bc @ [k])"
proof (induction bc)
  case Nil
  then show ?case by simp
next
  case (Cons p bc)
  obtain a b where p: "p = (a, b)" by (cases p)
  show ?case
    using Cons.IH by (auto simp: p)
qed


lemma takeWhile_stops: "\<exists>x\<in>set xs. \<not> P x \<Longrightarrow> length (takeWhile P xs) < length xs"
  by (induction xs) auto

lemma first_seen_snoc_old:
  assumes "\<exists>q'\<in>set qs. collection q' = Some a"
  shows "first_seen (qs @ [q]) a = first_seen qs a" and "first_seen qs a < length qs"
proof -
  from assms show "first_seen (qs @ [q]) a = first_seen qs a"
    by (auto simp: first_seen_def takeWhile_append1)
  from assms show "first_seen qs a < length qs"
    unfolding first_seen_def by (intro takeWhile_stops) auto
qed

lemma first_seen_snoc_new:
  assumes "\<forall>q'\<in>set qs. collection q' \<noteq> Some c" and "collection q = Some c"
  shows "first_seen (qs @ [q]) c = length qs"
  using assms by (simp add: first_seen_def takeWhile_append2)


lemma ns_count_snoc:
  "ns_count (qs @ [q]) c = ns_count qs c + (if collection q = Some c then 1 else 0)"
  by (simp add: ns_count_def)

lemma ns_count_zero: "\<forall>q\<in>set qs. collection q \<noteq> Some c \<Longrightarrow> ns_count qs c = 0"
  by (simp add: ns_count_def)

lemma tally_inv_keys:
  assumes "tally_inv qs bc"
  shows "set (map fst bc) = {c. c \<noteq> [] \<and> (\<exists>q\<in>set qs. collection q = Some c)}"
proof -
  have "dom (map_of bc) = {c. c \<noteq> [] \<and> (\<exists>q\<in>set qs. collection q = Some c)}"
    using assms unfolding tally_inv_def dom_def by auto
  then show ?thesis
    by (simp add: dom_map_of_conv_image_fst)
qed

lemma tally_inv_skip:
  assumes inv: "tally_inv qs bc" and skip: "\<not> truthy_str (collection q)"
  shows "tally_inv (qs @ [q]) bc"
proof -
  have keys: "set (map fst bc) = {c. c \<noteq> [] \<and> (\<exists>q\<in>set qs. collection q = Some c)}"
    by (rule tally_inv_keys [OF inv])
  have no: "\<And>c. c \<noteq> [] \<Longrightarrow> collection q \<noteq> Some c"
    using skip by (cases "collection q") auto
  have cnt: "\<And>c. c \<noteq> [] \<Longrightarrow> ns_count (qs @ [q]) c = ns_count qs c"
    using no by (simp add: ns_count_snoc)
  have m: "\<forall>c. map_of bc c =
        (if c \<noteq> [] \<and> (\<exists>q'\<in>set (qs @ [q]). collection q' = Some c)
         then Some (ns_count (qs @ [q]) c) else None)"
    using inv no cnt unfolding tally_inv_def by auto
  have "sorted_wrt (\<lambda>a b. first_seen qs a < first_seen qs b) (map fst bc)"
    using inv unfolding tally_inv_def by simp
  then have s: "sorted_wrt (\<lambda>a b. first_seen (qs @ [q]) a < first_seen (qs @ [q]) b) (map fst bc)"
  proof (rule sorted_wrt_mono_rel [rotated])
    fix a b assume "a \<in> set (map fst bc)" "b \<in> set (map fst bc)"
      and "first_seen qs a < first_seen qs b"
    then show "first_seen (qs @ [q]) a < first_seen (qs @ [q]) b"
      using keys first_seen_snoc_old(1) by auto
  qed
  show ?thesis
    using inv m s unfolding tally_inv_def by simp
qed

lemma tally_inv_bump:
  assumes inv: "tally_inv qs bc" and c: "collection q = Some c" "c \<noteq> []"
  shows "tally_inv (qs @ [q]) (bump c bc)"
proof -
  have keys: "set (map fst bc) = {c. c \<noteq> [] \<and> (\<exists>q\<in>set qs. collection q = Some c)}"
    by (rule tally_inv_keys [OF inv])
  have d: "distinct (map fst (bump c bc))"
    using inv unfolding tally_inv_def by (simp add: map_fst_bump)
  have m0: "\<And>x. map_of bc x =
        (if x \<noteq> [] \<and> (\<exists>q\<in>set qs. collection q = Some x) then Some (ns_count qs x) else None)"
    using inv unfolding tally_inv_def by simp
  have m: "\<forall>x. map_of (bump c bc) x =
        (if x \<noteq> [] \<and> (\<exists>q'\<in>set (qs @ [q]). collection q' = Some x)
         then Some (ns_count (qs @ [q]) x) else None)"
  proof
    fix x
    show "map_of (bump c bc) x =
        (if x \<noteq> [] \<and> (\<exists>q'\<in>set (qs @ [q]). collection q' = Some x)
         then Some (ns_count (qs @ [q]) x) else None)"
    proof (cases "x = c")
      case True
      show ?thesis
      proof (cases "\<exists>q'\<in>set qs. collection q' = Some c")
        case True
        with \<open>x = c\<close> c show ?thesis
          by (simp add: map_of_bump m0 ns_count_snoc)
      next
        case False
        then have "ns_count qs c = 0" by (simp add: ns_count_zero)
        with False \<open>x = c\<close> c show ?thesis
          by (simp add: map_of_bump m0 ns_count_snoc)
      qed
    next
      case False
      with c show ?thesis
        by (simp add: map_of_bump m0 ns_count_snoc)
    qed
  qed
  have old: "sorted_wrt (\<lambda>a b. first_seen (qs @ [q]) a < first_seen (qs @ [q]) b) (map fst bc)"
  proof (rule sorted_wrt_mono_rel [rotated])
    show "sorted_wrt (\<lambda>a b. first_seen qs a < first_seen qs b) (map fst bc)"
      using inv unfolding tally_inv_def by simp
    fix a b assume "a \<in> set (map fst bc)" "b \<in> set (map fst bc)"
      and "first_seen qs a < first_seen qs b"
    then show "first_seen (qs @ [q]) a < first_seen (qs @ [q]) b"
      using keys first_seen_snoc_old(1) by auto
  qed
  have s: "sorted_wrt (\<lambda>a b. first_seen (qs @ [q]) a < first_seen (qs @ [q]) b)
             (map fst (bump c bc))"
  proof (cases "c \<in> set (map fst bc)")
    case True
    then show ?thesis using old by (simp add: map_fst_bump)
  next
    case False
    then have fresh: "\<forall>q'\<in>set qs. collection q' \<noteq> Some c"
      using keys c by auto
    have "\<forall>a\<in>set (map fst bc). first_seen (qs @ [q]) a < first_seen (qs @ [q]) c"
    proof
      fix a assume "a \<in> set (map fst bc)"
      then have ex: "\<exists>q'\<in>set qs. collection q' = Some a" using keys by auto
      show "first_seen (qs @ [q]) a < first_seen (qs @ [q]) c"
        using first_seen_snoc_old(1) [OF ex, of q] first_seen_snoc_old(2) [OF ex]
          first_seen_snoc_new [OF fresh c(1)] by simp
    qed
    with False old show ?thesis
      by (simp add: map_fst_bump sorted_wrt_append)
  qed
  show ?thesis
    using d m s unfolding tally_inv_def by simp
qed

lemma tally_inv_foldl: "tally_inv qs (foldl tally_step [] qs)"
proof (induction qs rule: rev_induct)
  case Nil
  then show ?case by (simp add: tally_inv_def)
next
  case (snoc q qs)
  show ?case
  proof (cases "truthy_str (collection q)")
    case True
    then obtain c where c: "collection q = Some c" "c \<noteq> []"
      by (cases "collection q") auto
    with tally_inv_bump [OF snoc.IH c] show ?thesis
      by (simp add: tally_step_def)
  next
    case False
    then have "tally_step (foldl tally_step [] qs) q = foldl tally_step [] qs"
      by (cases "collection q") (auto simp: tally_step_def)
    with tally_inv_skip [OF snoc.IH False] show ?thesis
      by simp
  qed
qed

subsection \<open>The order of the table\<close>

lemma sorted_wrt_filter_iff:
  "sorted_wrt Q (filter P xs) \<longleftrightarrow> sorted_wrt (\<lambda>a b. P a \<and> P b \<longrightarrow> Q a b) xs"
  by (induction xs) auto

lemma desc_sorted: "sorted_wrt (\<lambda>a b. snd a \<ge> snd b) (sorted_by_count_desc xs)"
proof -
  have "sorted (map snd (sort_key snd (rev xs)))"
    by (rule sorted_sort_key)
  then have "sorted_wrt (\<lambda>a b. snd a \<le> snd b) (sort_key snd (rev xs))"
    by (simp add: sorted_wrt_map)
  then show ?thesis
    by (simp add: sorted_by_count_desc_def sorted_wrt_rev)
qed

lemma desc_stable:
  "filter (\<lambda>y. snd y = k) (sorted_by_count_desc xs) = filter (\<lambda>y. snd y = k) xs"
proof -
  have "filter (\<lambda>y. snd y = k) (sort_key snd (rev xs)) = filter (\<lambda>y. snd y = k) (rev xs)"
    by (rule sort_key_stable)
  then show ?thesis
    by (simp add: sorted_by_count_desc_def rev_filter [symmetric])
qed

lemma desc_mset: "mset (sorted_by_count_desc xs) = mset xs"
  by (simp add: sorted_by_count_desc_def)

lemma desc_set: "set (sorted_by_count_desc xs) = set xs"
  by (simp add: sorted_by_count_desc_def)

lemma desc_length: "length (sorted_by_count_desc xs) = length xs"
  by (simp add: sorted_by_count_desc_def)


lemma desc_ties:
  assumes "sorted_wrt (\<lambda>a b. R (fst a) (fst b)) xs"
  shows "sorted_wrt (\<lambda>a b. snd a > snd b \<or> (snd a = snd b \<and> R (fst a) (fst b)))
           (sorted_by_count_desc xs)"
proof -
  let ?rows = "sorted_by_count_desc xs"
  have tie: "sorted_wrt (\<lambda>a b. snd a = k \<and> snd b = k \<longrightarrow> R (fst a) (fst b)) ?rows" for k
  proof -
    have "sorted_wrt (\<lambda>a b. R (fst a) (fst b)) (filter (\<lambda>y. snd y = k) xs)"
      using assms by (rule sorted_wrt_filter)
    then have "sorted_wrt (\<lambda>a b. R (fst a) (fst b)) (filter (\<lambda>y. snd y = k) ?rows)"
      by (simp add: desc_stable)
    then show ?thesis
      by (simp add: sorted_wrt_filter_iff)
  qed
  show ?thesis
    unfolding sorted_wrt_iff_nth_less
  proof (intro allI impI)
    fix i j assume ij: "i < j" "j < length ?rows"
    have ge: "snd (?rows ! i) \<ge> snd (?rows ! j)"
      using desc_sorted [of xs] ij unfolding sorted_wrt_iff_nth_less by blast
    have "snd (?rows ! i) = snd (?rows ! j) \<longrightarrow> R (fst (?rows ! i)) (fst (?rows ! j))"
      using tie [of "snd (?rows ! j)"] ij unfolding sorted_wrt_iff_nth_less by blast
    with ge show "snd (?rows ! j) < snd (?rows ! i) \<or>
        snd (?rows ! i) = snd (?rows ! j) \<and> R (fst (?rows ! i)) (fst (?rows ! j))"
      by auto
  qed
qed

lemma summary_rows_eq: "summary_rows qs = sorted_by_count_desc (foldl tally_step [] qs)"
  by (simp add: summary_rows_def summary_loop_eq)

lemma summary_rows_order:
  "sorted_wrt (\<lambda>a b. snd a > snd b \<or> (snd a = snd b \<and> first_seen qs (fst a) < first_seen qs (fst b)))
     (summary_rows qs)"
proof -
  have "sorted_wrt (\<lambda>a b. first_seen qs (fst a) < first_seen qs (fst b)) (foldl tally_step [] qs)"
    using tally_inv_foldl [of qs] by (simp add: tally_inv_def sorted_wrt_map)
  then show ?thesis
    unfolding summary_rows_eq by (rule desc_ties)
qed

lemma summary_rows_counts:
  "(c, k) \<in> set (summary_rows qs) \<longleftrightarrow>
     c \<noteq> [] \<and> (\<exists>q\<in>set qs. collection q = Some c) \<and> k = ns_count qs c"
proof -
  let ?bc = "foldl tally_step [] qs"
  have inv: "tally_inv qs ?bc" by (rule tally_inv_foldl)
  then have d: "distinct (map fst ?bc)" by (simp add: tally_inv_def)
  have "(c, k) \<in> set ?bc \<longleftrightarrow> map_of ?bc c = Some k"
    using d by simp
  also have "\<dots> \<longleftrightarrow> c \<noteq> [] \<and> (\<exists>q\<in>set qs. collection q = Some c) \<and> k = ns_count qs c"
    using inv unfolding tally_inv_def by auto
  finally show ?thesis
    by (simp add: summary_rows_eq desc_set)
qed

lemma summary_rows_distinct: "distinct (map fst (summary_rows qs))"
proof -
  have "distinct (map fst (foldl tally_step [] qs))"
    using tally_inv_foldl [of qs] by (simp add: tally_inv_def)
  moreover have "mset (map fst (summary_rows qs)) = mset (map fst (foldl tally_step [] qs))"
    by (simp add: summary_rows_eq desc_mset)
  ultimately show ?thesis
    by (metis mset_eq_imp_distinct_iff)
qed




lemma tally_empty_iff:
  "foldl tally_step [] qs = [] \<longleftrightarrow> (\<forall>q\<in>set qs. \<not> truthy_str (collection q))"
proof -
  have keys: "set (map fst (foldl tally_step [] qs)) = {c. c \<noteq> [] \<and> (\<exists>q\<in>set qs. collection q = Some c)}"
    by (rule tally_inv_keys [OF tally_inv_foldl])
  have "foldl tally_step [] qs = [] \<longleftrightarrow> set (map fst (foldl tally_step [] qs)) = {}"
    by simp
  also have "\<dots> \<longleftrightarrow> (\<forall>q\<in>set qs. \<forall>c. collection q = Some c \<longrightarrow> c = [])"
    unfolding keys by blast
  also have "\<dots> \<longleftrightarrow> (\<forall>q\<in>set qs. \<not> truthy_str (collection q))"
  proof -
    have h: "(\<forall>c. collection q = Some c \<longrightarrow> c = []) \<longleftrightarrow> \<not> truthy_str (collection q)" for q
      by (cases "collection q") simp_all
    show ?thesis by (simp only: h)
  qed
  finally show ?thesis .
qed

subsection \<open>What the summary prints\<close>

lemma print_summary_eq:
  assumes "qs \<noteq> []"
  shows "print_summary qs =
     [Print (CHR 0x0A # rule70), Print ''SUMMARY'', Print rule70,
      Print (CHR 0x0A # ''Total COLLSCAN queries found: '' @ str_int (int (length qs)))]
     @ (if \<exists>q\<in>set qs. truthy_str (collection q)
        then Print (CHR 0x0A # ''COLLSCAN queries by collection:'')
             # map (\<lambda>(c, k). Print (''  '' @ c @ '': '' @ str_int k)) (summary_rows qs)
        else [])
     @ (if \<exists>q\<in>set qs. is_slow q
        then [Print (CHR 0x0A # ''Slow COLLSCAN queries (>100ms): ''
                       @ str_int (int (length (filter is_slow qs)))),
              Print_average (sum_list (List.map_filter duration_ms qs)) (int (length qs))]
        else [])"
proof -
  have t: "foldl tally_step [] qs \<noteq> [] \<longleftrightarrow> (\<exists>q\<in>set qs. truthy_str (collection q))"
    by (simp add: tally_empty_iff)
  have s: "filter is_slow qs \<noteq> [] \<longleftrightarrow> (\<exists>q\<in>set qs. is_slow q)"
    by (simp add: filter_empty_conv)
  show ?thesis
    using assms by (simp add: print_summary_def summary_loop_eq t s summary_rows_eq)
qed



text \<open>
  Claim C3. The rows of the per-collection table stand in descending order of their
  counts, and two namespaces with equal counts stand in the order in which they were
  first met in the record sequence. Each namespace has one row, its count is the number
  of records with that namespace, and the rows are printed in this order right after the
  heading of the table.
\<close>

theorem C3_table_order:
  "sorted_wrt (\<lambda>a b. snd a > snd b \<or>
                  (snd a = snd b \<and> first_seen qs (fst a) < first_seen qs (fst b)))
     (summary_rows qs)
   \<and> distinct (map fst (summary_rows qs))
   \<and> (\<forall>c k. (c, k) \<in> set (summary_rows qs) \<longleftrightarrow>
         c \<noteq> [] \<and> (\<exists>q\<in>set qs. collection q = Some c) \<and> k = ns_count qs c)
   \<and> (summary_rows qs \<noteq> [] \<longrightarrow>
        (\<exists>rest. print_summary qs =
           [Print (CHR 0x0A # rule70), Print ''SUMMARY'', Print rule70,
            Print (CHR 0x0A # ''Total COLLSCAN queries found: '' @ str_int (int (length qs))),
            Print (CHR 0x0A # ''COLLSCAN queries by collection:'')]
           @ map (\<lambda>(c, k). Print (''  '' @ c @ '': '' @ str_int k)) (summary_rows qs)
           @ rest))"
proof (intro conjI allI impI)
  show "sorted_wrt (\<lambda>a b. snd a > snd b \<or>
                  (snd a = snd b \<and> first_seen qs (fst a) < first_seen qs (fst b)))
     (summary_rows qs)"
    by (rule summary_rows_order)
  show "distinct (map fst (summary_rows qs))"
    by (rule summary_rows_distinct)
  show "(c, k) \<in> set (summary_rows qs) \<longleftrightarrow>
         c \<noteq> [] \<and> (\<exists>q\<in>set qs. collection q = Some c) \<and> k = ns_count qs c" for c k
    by (rule summary_rows_counts)
next
  assume rows: "summary_rows qs \<noteq> []"
  then have t: "\<exists>q\<in>set qs. truthy_str (collection q)"
    using tally_empty_iff [of qs] by (auto simp: summary_rows_eq sorted_by_count_desc_def)
  then have ne: "qs \<noteq> []" by auto
  show "\<exists>rest. print_summary qs =
           [Print (CHR 0x0A # rule70), Print ''SUMMARY'', Print rule70,
            Print (CHR 0x0A # ''Total COLLSCAN queries found: '' @ str_int (int (length qs))),
            Print (CHR 0x0A # ''COLLSCAN queries by collection:'')]
           @ map (\<lambda>(c, k). Print (''  '' @ c @ '': '' @ str_int k)) (summary_rows qs)
           @ rest"
    using t by (simp add: print_summary_eq [OF ne])
qed

theorem C3_table_order_witness:
  "summary_rows sample_records = [(''shop.b'', 2), (''shop.a'', 2), (''shop.c'', 1)]
   \<and> first_seen sample_records ''shop.b'' < first_seen sample_records ''shop.a''
   \<and> (\<exists>rest. print_summary sample_records =
           [Print (CHR 0x0A # rule70), Print ''SUMMARY'', Print rule70,
            Print (CHR 0x0A # ''Total COLLSCAN queries found: 6''),
            Print (CHR 0x0A # ''COLLSCAN queries by collection:''),
            Print ''  shop.b: 2'', Print ''  shop.a: 2'', Print ''  shop.c: 1'']
           @ rest)"
proof -
  have rows: "summary_rows sample_records = [(''shop.b'', 2), (''shop.a'', 2), (''shop.c'', 1)]"
    by code_simp
  have len: "str_int (int (length sample_records)) = ''6''"
    by code_simp
  have s2: "str_int 2 = ''2''" and s1: "str_int 1 = ''1''"
    by code_simp+
  have "first_seen sample_records ''shop.b'' < first_seen sample_records ''shop.a''"
    using C3_table_order [of sample_records] by (simp add: rows)
  moreover have "\<exists>rest. print_summary sample_records =
           [Print (CHR 0x0A # rule70), Print ''SUMMARY'', Print rule70,
            Print (CHR 0x0A # ''Total COLLSCAN queries found: 6''),
            Print (CHR 0x0A # ''COLLSCAN queries by collection:''),
            Print ''  shop.b: 2'', Print ''  shop.a: 2'', Print ''  shop.c: 1'']
           @ rest"
    using C3_table_order [of sample_records] by (simp add: rows len s1 s2)
  ultimately show ?thesis
    using rows by simp
qed






subsection \<open>The scanner and its errors\<close>

text \<open>
  Claim C4. Whatever the state of the file, \<^verbatim>\<open>parse_mongo_log\<close> returns to its caller.
  When the file is not found it prints the not-found message and returns the empty
  sequence; on any other error, at opening or while reading, it prints the message of the
  error and returns the empty sequence.
\<close>

theorem C4_scanner_never_raises:
  "(\<exists>out rs. parse_mongo_log file path = (out, Inr rs))
   \<and> (\<forall>msg. scan_file file = Inl (FileNotFoundError msg) \<longrightarrow>
         parse_mongo_log file path =
           ([Print rule70, Print (''Analyzing MongoDB Log: '' @ path), Print rule70,
             Print (cross_mark @ '' Error: File not found - '' @ path)], Inr []))
   \<and> (\<forall>msg. scan_file file = Inl (OtherException msg) \<longrightarrow>
         parse_mongo_log file path =
           ([Print rule70, Print (''Analyzing MongoDB Log: '' @ path), Print rule70,
             Print (cross_mark @ '' Error reading file: '' @ msg)], Inr []))"
proof (cases "scan_file file")
  case (Inl e)
  then show ?thesis
    by (cases e) (simp_all add: parse_mongo_log_def)
next
  case (Inr qs)
  then show ?thesis
    by (simp add: parse_mongo_log_def)
qed

theorem C4_scanner_never_raises_witness:
  "parse_mongo_log (Open_fails (FileNotFoundError ''no such file'')) ''db.log'' =
     ([Print rule70, Print ''Analyzing MongoDB Log: db.log'', Print rule70,
       Print (cross_mark @ '' Error: File not found - db.log'')], Inr [])
   \<and> parse_mongo_log (Readable [''COLLSCAN 5ms''] (Some (OtherException ''disk error''))) ''db.log'' =
     ([Print rule70, Print ''Analyzing MongoDB Log: db.log'', Print rule70,
       Print (cross_mark @ '' Error reading file: disk error'')], Inr [])"
  using C4_scanner_never_raises [of "Open_fails (FileNotFoundError ''no such file'')" "''db.log''"]
        C4_scanner_never_raises [of "Readable [''COLLSCAN 5ms''] (Some (OtherException ''disk error''))" "''db.log''"]
  by simp





subsection \<open>The export\<close>











end
